theory Spec2Isabelle
  imports Complex_Main "HOL-Library.Word"
begin

unbundle bit_operations_syntax

section \<open>The sea256 hash core (src/src/sea.ts)\<close>

text \<open>
  Every number the hash core handles is an integer. A value that the code has just passed
  through \<open>>>> 0\<close>, read from a \<open>Uint32Array\<close> or produced by a bitwise operator is a
  32-bit pattern and is a \<open>32 word\<close> here; \<open>uint\<close> reads it as the unsigned number
  (after \<open>>>> 0\<close>), \<open>sint\<close> as the signed one (the result of \<open>^\<close>, \<open>&\<close>, \<open>|\<close>,
  \<open><<\<close>, \<open>>>\<close>). A byte read from a \<open>Buffer\<close> is an \<open>8 word\<close>. Wider
  intermediate numbers are \<open>int\<close>.
\<close>

type_synonym u32 = "32 word"
type_synonym byte = "8 word"

subsection \<open>Numbers: where a double rounds in the hash core\<close>

text \<open>
  A JavaScript number is an IEEE 754 double: an integer is represented exactly iff it has
  at most 53 significant bits. The sums of the hash core stay below \<open>2^53\<close> and are exact. The
  product \<open>scale * zeta\<close> in \<open>gammaValue\<close> reaches \<open>2^62\<close>, so \<open>*\<close> rounds it to the
  nearest double, ties to even. \<open>fround\<close> is that rounding on integers (far below the
  overflow threshold \<open>2^1024\<close>).
\<close>

function bitlength :: "int \<Rightarrow> nat" where
  \<comment> \<open>the number of significant bits of a positive integer\<close>
  "bitlength n = (if n \<le> 0 then 0 else Suc (bitlength (n div 2)))"
  by pat_completeness auto
termination
  by (relation "measure nat") auto

declare bitlength.simps [simp del]

definition fround :: "int \<Rightarrow> int" where
  "fround x =
     (let a = \<bar>x\<bar>; len = bitlength a in
      if len \<le> 53 then x
      else
        let sh = len - 53;
            q = a div 2 ^ sh;
            r = a mod 2 ^ sh;
            half = 2 ^ (sh - 1);
            q' = (if r > half \<or> (r = half \<and> odd q) then q + 1 else q)
        in sgn x * (q' * 2 ^ sh))"

definition js_mul :: "int \<Rightarrow> int \<Rightarrow> int" where
  \<comment> \<open>\<open>a * b\<close> on integer-valued doubles\<close>
  "js_mul a b = fround (a * b)"

subsection \<open>config\<close>

definition initialValues :: "u32 list" where
  \<comment> \<open>the eight entries of \<open>config.initialValues\<close>, each constant expression evaluated:
      \<open>3.86e26\<close> is the double \<open>386000000000000013925089280\<close>, whose remainder
      by \<open>0xffffffff\<close> is \<open>4010821885\<close>; the others are floors of square roots\<close>
  "initialValues =
     [696342, 4010821885, 144459, 1075349, 97266, 65535, 65535, 65535]"

definition rotLeftAmount :: int where "rotLeftAmount = 5"
definition rotRightAmount :: int where "rotRightAmount = 3"
definition scale :: int where "scale = 0xb7e15162"
definition grow :: int where "grow = 0x9e3779b9"
definition flip :: u32 where "flip = 0x7f4a7c15"
definition collapse :: u32 where "collapse = 0x243f6a88"
definition nlShift :: int where "nlShift = 7"
definition roundsPerByte :: nat where "roundsPerByte = 3"

subsection \<open>utils\<close>

definition wrap32 :: "int \<Rightarrow> u32" where
  \<comment> \<open>\<open>x >>> 0\<close>\<close>
  "wrap32 x = word_of_int x"

definition toInt32 :: "int \<Rightarrow> u32" where
  \<comment> \<open>the coercion a bitwise operator applies to an operand\<close>
  "toInt32 x = word_of_int x"

definition shiftCount :: "int \<Rightarrow> nat" where
  \<comment> \<open>a shift operator uses the low five bits of its right operand\<close>
  "shiftCount n = nat (n mod 32)"

definition rotL :: "u32 \<Rightarrow> int \<Rightarrow> u32" where
  \<comment> \<open>\<open>((x << n) | (x >>> (32 - n))) >>> 0\<close>\<close>
  "rotL x n = push_bit (shiftCount n) x OR drop_bit (shiftCount (32 - n)) x"

definition rotR :: "u32 \<Rightarrow> int \<Rightarrow> u32" where
  \<comment> \<open>\<open>((x >>> n) | (x << (32 - n))) >>> 0\<close>\<close>
  "rotR x n = drop_bit (shiftCount n) x OR push_bit (shiftCount (32 - n)) x"

definition zetaValue :: "u32 \<Rightarrow> u32 \<Rightarrow> int" where
  \<comment> \<open>\<open>(alpha ^ beta) + (alpha & beta)\<close>: both operands of \<open>+\<close> are signed\<close>
  "zetaValue alpha beta = sint (alpha XOR beta) + sint (alpha AND beta)"

definition gammaValue :: "u32 \<Rightarrow> u32 \<Rightarrow> byte \<Rightarrow> u32" where
  "gammaValue alpha beta u =
     (let z = wrap32 (sint (push_bit (shiftCount 3) (toInt32 (js_mul scale (zetaValue alpha beta)))));
          z = wrap32 (uint z + uint u * grow);
          z = rotL (z XOR flip) nlShift;
          z = wrap32 (sint (z AND collapse))
      in z)"

definition hashByte :: "u32 \<Rightarrow> byte \<Rightarrow> u32" where
  "hashByte b u =
     (let alpha = rotL (b XOR ucast u) rotLeftAmount;
          beta = rotR (wrap32 (uint b + uint u)) rotRightAmount;
          gamma = gammaValue alpha beta u
      in wrap32 (uint alpha + uint beta + uint gamma))"

fun roundMix_loop :: "nat \<Rightarrow> u32 \<Rightarrow> byte \<Rightarrow> u32" where
  \<comment> \<open>the \<open>for\<close> loop of \<open>roundMix\<close> with \<open>n\<close> iterations left\<close>
  "roundMix_loop 0 val u = val"
| "roundMix_loop (Suc n) val u = roundMix_loop n (hashByte val u) u"

definition roundMix :: "u32 \<Rightarrow> byte \<Rightarrow> u32" where
  "roundMix b u = roundMix_loop roundsPerByte b u"

fun entangle_loop :: "byte \<Rightarrow> u32 \<Rightarrow> u32 list \<Rightarrow> u32" where
  \<comment> \<open>the \<open>for\<close> loop of \<open>entangle\<close> over \<open>args[1..]\<close>\<close>
  "entangle_loop u prev [] = prev"
| "entangle_loop u prev (w # ws) =
     entangle_loop u (roundMix (wrap32 (uint prev + uint w)) u) ws"

fun entangle :: "byte \<Rightarrow> u32 list \<Rightarrow> u32 option" where
  \<comment> \<open>\<open>None\<close> is \<open>undefined\<close>: \<open>args[0]\<close> of an empty array, returned as it is\<close>
  "entangle u [] = None"
| "entangle u (a # rest) = Some (entangle_loop u a rest)"

subsection \<open>The keystream byte\<close>

definition js_rem :: "nat \<Rightarrow> nat \<Rightarrow> nat option" where
  \<comment> \<open>\<open>i % n\<close> on non-negative integers; \<open>None\<close> is \<open>NaN\<close>\<close>
  "js_rem i n = (if n = 0 then None else Some (i mod n))"

definition js_index :: "byte list \<Rightarrow> nat option \<Rightarrow> byte option" where
  \<comment> \<open>\<open>b[idx]\<close> on a typed array; \<open>None\<close> is \<open>undefined\<close>\<close>
  "js_index b idx =
     (case idx of None \<Rightarrow> None
      | Some n \<Rightarrow> if n < length b then Some (b ! n) else None)"

definition shiftValue :: "byte list \<Rightarrow> nat \<Rightarrow> byte" where
  \<comment> \<open>\<open>b[i % b.length] || 0\<close>\<close>
  "shiftValue b i =
     (case js_index b (js_rem i (length b)) of
        None \<Rightarrow> 0
      | Some v \<Rightarrow> if v = 0 then 0 else v)"

subsection \<open>sea256Raw\<close>

definition nextWord :: "byte \<Rightarrow> byte \<Rightarrow> u32 list \<Rightarrow> u32" where
  \<comment> \<open>what \<open>state[j] = entangle(u, state) + k\<close> stores: the \<open>Uint32Array\<close> wraps
      the number to 32 bits, and \<open>undefined + k\<close> is \<open>NaN\<close>, stored as 0\<close>
  "nextWord u k state =
     (case entangle u state of
        None \<Rightarrow> 0
      | Some e \<Rightarrow> wrap32 (uint e + uint k))"

function updateWords :: "byte \<Rightarrow> byte \<Rightarrow> nat \<Rightarrow> u32 list \<Rightarrow> u32 list" where
  \<comment> \<open>the inner loop \<open>for (let j = 0; j < state.length; j++)\<close>, from \<open>j\<close> on\<close>
  "updateWords u k j state =
     (if j < length state
      then updateWords u k (Suc j) (state[j := nextWord u k state])
      else state)"
  by pat_completeness auto
termination
  by (relation "measure (\<lambda>(u, k, j, state). length state - j)") auto

declare updateWords.simps [simp del]

fun hashBytes :: "byte list \<Rightarrow> nat \<Rightarrow> byte list \<Rightarrow> u32 list \<Rightarrow> u32 list" where
  \<comment> \<open>the outer loop \<open>for (const u of bytes)\<close> with the running index \<open>i\<close>\<close>
  "hashBytes key i [] state = state"
| "hashBytes key i (u # bytes) state =
     hashBytes key (Suc i) bytes (updateWords u (shiftValue key i) 0 state)"

definition wordBytes :: "u32 \<Rightarrow> byte list" where
  \<comment> \<open>the four stores of the \<open>forEach\<close> callback; \<open>>>\<close> is the arithmetic shift\<close>
  "wordBytes v =
     [ucast (signed_drop_bit (shiftCount 24) v AND 0xff),
      ucast (signed_drop_bit (shiftCount 16) v AND 0xff),
      ucast (signed_drop_bit (shiftCount 8) v AND 0xff),
      ucast (v AND 0xff)]"

definition serialize :: "u32 list \<Rightarrow> byte list" where
  \<comment> \<open>\<open>rb\<close> after the \<open>forEach\<close>: word \<open>idx\<close> fills bytes \<open>4 * idx .. 4 * idx + 3\<close>\<close>
  "serialize state = concat (map wordBytes state)"

definition finalState :: "byte list \<Rightarrow> byte list \<Rightarrow> u32 list" where
  \<comment> \<open>\<open>state\<close> when the loop over \<open>bytes\<close> has ended; the index starts at 1\<close>
  "finalState bytes key = hashBytes key 1 bytes initialValues"

definition sea256Raw :: "byte list \<Rightarrow> byte list \<Rightarrow> byte list" where
  "sea256Raw bytes key = serialize (finalState bytes key)"

section \<open>The statistical harness (src/src/hashTester.ts)\<close>

text \<open>
  The harness is the first \<open>HashTester\<close> class of the file, the one that passes a key to
  the hash function. A JavaScript string is its sequence of UTF-16 code units. What the
  harness calls from the Node library is not code of the repository and is a parameter:
  the UTF-8 encoder and decoder, the hex decoder and the random byte source (with the
  state of the generator made explicit).
\<close>

type_synonym jsstring = "16 word list"

record 'g node =
  utf8Bytes :: "jsstring \<Rightarrow> byte list" \<comment> \<open>\<open>Buffer.from(s, "utf8")\<close>\<close>
  utf8String :: "byte list \<Rightarrow> jsstring" \<comment> \<open>\<open>buf.toString("utf8")\<close>\<close>
  hexBytes :: "jsstring \<Rightarrow> byte list" \<comment> \<open>\<open>Buffer.from(s, "hex")\<close>\<close>
  randomBytes :: "nat \<Rightarrow> 'g \<Rightarrow> byte list \<times> 'g" \<comment> \<open>\<open>crypto.randomBytes(n)\<close>\<close>

record hashTester =
  hashFn :: "jsstring \<Rightarrow> jsstring \<Rightarrow> jsstring" \<comment> \<open>called with \<open>{input, key}\<close>\<close>
  testingKey :: jsstring

subsection \<open>Numbers that are not integers\<close>





subsection \<open>flipBit\<close>


subsection \<open>hammingDistance and bitDiff\<close>

function popcount_loop :: "u32 \<Rightarrow> nat \<Rightarrow> nat" where
  \<comment> \<open>\<open>while (xor) { dist++; xor &= xor - 1; }\<close>, returning the counter
      (\<open>dist\<close> is a constant of the library, so the counter is \<open>dist'\<close> here)\<close>
  "popcount_loop x dist' =
     (if x \<noteq> 0 then popcount_loop (x AND (x - 1)) (Suc dist') else dist')"
  by pat_completeness auto
termination
proof (relation "measure (\<lambda>(x, dist'). unat x)")
  show "wf (measure (\<lambda>(x :: u32, dist' :: nat). unat x))"
    by simp
next
  fix x :: u32 and dist' :: nat
  assume nz: "x \<noteq> 0"
  have "x AND (x - 1) \<le> x - 1"
    by (rule word_and_le1)
  then have "unat (x AND (x - 1)) \<le> unat (x - 1)"
    by (simp add: word_le_nat_alt)
  moreover from nz have "unat (x - 1) = unat x - 1"
    by (rule unat_minus_one)
  moreover from nz have "0 < unat x"
    by (simp add: unat_gt_0)
  ultimately show "((x AND (x - 1), Suc dist'), (x, dist')) \<in> measure (\<lambda>(x, dist'). unat x)"
    by simp
qed

declare popcount_loop.simps [simp del]

definition readByte :: "byte list \<Rightarrow> nat \<Rightarrow> byte option" where
  \<comment> \<open>\<open>buf[i]\<close>; \<open>None\<close> is \<open>undefined\<close>\<close>
  "readByte buf i = (if i < length buf then Some (buf ! i) else None)"

definition xorBytes :: "byte option \<Rightarrow> byte option \<Rightarrow> u32" where
  \<comment> \<open>\<open>a ^ b\<close>: the operator reads \<open>undefined\<close> as 0\<close>
  "xorBytes a b =
     (case a of None \<Rightarrow> 0 | Some x \<Rightarrow> ucast x) XOR (case b of None \<Rightarrow> 0 | Some y \<Rightarrow> ucast y)"

function hammingDistance_loop :: "byte list \<Rightarrow> byte list \<Rightarrow> nat \<Rightarrow> nat \<Rightarrow> nat" where
  \<comment> \<open>\<open>for (let i = 0; i < buf1.length; i++)\<close>, from \<open>i\<close> on\<close>
  "hammingDistance_loop buf1 buf2 i dist' =
     (if i < length buf1
      then hammingDistance_loop buf1 buf2 (Suc i)
             (popcount_loop (xorBytes (readByte buf1 i) (readByte buf2 i)) dist')
      else dist')"
  by pat_completeness auto
termination
  by (relation "measure (\<lambda>(buf1, buf2, i, dist'). length buf1 - i)") auto

declare hammingDistance_loop.simps [simp del]

definition hammingDistance_bufs :: "byte list \<Rightarrow> byte list \<Rightarrow> nat" where
  \<comment> \<open>the body of \<open>hammingDistance\<close> below the two hex decodings\<close>
  "hammingDistance_bufs buf1 buf2 = hammingDistance_loop buf1 buf2 0 0"

definition hammingDistance :: "'g node \<Rightarrow> jsstring \<Rightarrow> jsstring \<Rightarrow> nat" where
  "hammingDistance nd hex1 hex2 = hammingDistance_bufs (hexBytes nd hex1) (hexBytes nd hex2)"

function bitDiff_loop :: "byte list \<Rightarrow> byte list \<Rightarrow> nat \<Rightarrow> nat \<Rightarrow> nat \<Rightarrow> nat" where
  \<comment> \<open>\<open>for (let i = 0; i < maxLen; i++)\<close>, from \<open>i\<close> on\<close>
  "bitDiff_loop a b maxLen i dist' =
     (if i < maxLen
      then
        let ai = (if i < length a then readByte a i else Some 0);
            bi = (if i < length b then readByte b i else Some 0)
        in bitDiff_loop a b maxLen (Suc i) (popcount_loop (xorBytes ai bi) dist')
      else dist')"
  by pat_completeness auto
termination
  by (relation "measure (\<lambda>(a, b, maxLen, i, dist'). maxLen - i)") auto

declare bitDiff_loop.simps [simp del]

definition bitDiff_bufs :: "byte list \<Rightarrow> byte list \<Rightarrow> nat" where
  \<comment> \<open>the body of \<open>bitDiff\<close> below the two hex decodings\<close>
  "bitDiff_bufs a b = bitDiff_loop a b (max (length a) (length b)) 0 0"

definition bitDiff :: "'g node \<Rightarrow> jsstring \<Rightarrow> jsstring \<Rightarrow> nat" where
  "bitDiff nd hexA hexB = bitDiff_bufs (hexBytes nd hexA) (hexBytes nd hexB)"

subsection \<open>diffusion\<close>




subsection \<open>preimage\<close>

text \<open>
  \<open>attempts\<close> is whatever number the caller passes: it is compared with the counter and
  returned as \<open>tries\<close>, and nothing checks that it is an integer, or finite. So it is a
  JavaScript number here. The counter \<open>i\<close> is a number too: \<open>i++\<close> and \<open>i + 1\<close> are
  additions of doubles, exact up to \<open>2^53\<close> and rounded from there on. A loop that never
  ends returns \<open>None\<close>.
\<close>

datatype jsnumber = Number rat | PosInfinity | NegInfinity | NaN

definition js_less :: "int \<Rightarrow> jsnumber \<Rightarrow> bool" where
  \<comment> \<open>\<open>i < a\<close> for an integer \<open>i\<close>: false against \<open>NaN\<close>\<close>
  "js_less i a =
     (case a of
        Number q \<Rightarrow> of_int i < q
      | PosInfinity \<Rightarrow> True
      | NegInfinity \<Rightarrow> False
      | NaN \<Rightarrow> False)"

record preimageResult =
  found :: bool
  candidate :: "jsstring option" \<comment> \<open>absent from the object returned when nothing is found\<close>
  tries :: jsnumber

record 'g world =
  rng :: 'g \<comment> \<open>the state of the random byte source\<close>
  hashCalls :: nat \<comment> \<open>how often \<open>hashFn\<close> has been called\<close>

partial_function (option) preimage_loop ::
  "'g node \<Rightarrow> hashTester \<Rightarrow> jsstring \<Rightarrow> nat \<Rightarrow> jsnumber \<Rightarrow> int \<Rightarrow> 'g world
     \<Rightarrow> (preimageResult \<times> 'g world) option" where
  \<comment> \<open>\<open>for (let i = 0; i < attempts; i++)\<close>, from \<open>i\<close> on, and the \<open>return\<close> below it\<close>
  "preimage_loop nd t output inputLength attempts i w =
     (if js_less i attempts
      then
        case randomBytes nd inputLength (rng w) of
          (bytes, g) \<Rightarrow>
            if hashFn t (utf8String nd bytes) (testingKey t) = output
            then Some (\<lparr>found = True, candidate = Some (utf8String nd bytes),
                         tries = Number (of_int (fround (i + 1)))\<rparr>,
                       \<lparr>rng = g, hashCalls = Suc (hashCalls w)\<rparr>)
            else preimage_loop nd t output inputLength attempts (fround (i + 1))
                   \<lparr>rng = g, hashCalls = Suc (hashCalls w)\<rparr>
      else Some (\<lparr>found = False, candidate = None, tries = attempts\<rparr>, w))"

declare preimage_loop.simps [code]

definition preimage ::
  "'g node \<Rightarrow> hashTester \<Rightarrow> jsstring \<Rightarrow> nat \<Rightarrow> jsnumber \<Rightarrow> 'g world
     \<Rightarrow> (preimageResult \<times> 'g world) option" where
  "preimage nd t output inputLength attempts w =
     preimage_loop nd t output inputLength attempts 0 w"

section \<open>Notions of the specification\<close>

text \<open>
  The definitions of this section are not code of the repository: they are what the
  specification's words say, written down to compare the code with.
\<close>

definition nonlinear_exact :: "u32 \<Rightarrow> u32 \<Rightarrow> byte \<Rightarrow> u32" where
  \<comment> \<open>the non-linear step as the specification gives it, every operation exact on the
      integers and then reduced modulo \<open>2^32\<close>\<close>
  "nonlinear_exact alpha beta u =
     (let zeta = uint (alpha XOR beta) + uint (alpha AND beta);
          z = wrap32 ((scale * zeta) * 2 ^ 3);
          z = wrap32 (uint z + uint u * grow);
          z = word_rotl 7 (z XOR flip);
          z = wrap32 (uint (z AND collapse))
      in z)"

fun bigEndianWords :: "byte list \<Rightarrow> u32 list" where
  \<comment> \<open>a byte sequence read as big-endian 32-bit words, most significant byte first\<close>
  "bigEndianWords (b0 # b1 # b2 # b3 # rest) =
     (push_bit 24 (ucast b0) OR push_bit 16 (ucast b1) OR push_bit 8 (ucast b2) OR ucast b3)
       # bigEndianWords rest"
| "bigEndianWords _ = []"

definition differingBits :: "byte \<Rightarrow> byte \<Rightarrow> nat" where
  \<comment> \<open>in how many bit positions two bytes differ\<close>
  "differingBits x y = card {n. bit x n \<noteq> bit y n}"

definition zeroExtend :: "nat \<Rightarrow> byte list \<Rightarrow> byte list" where
  \<comment> \<open>a byte sequence with zero bytes appended up to length \<open>n\<close>\<close>
  "zeroExtend n xs = xs @ replicate (n - length xs) 0"

definition nth0 :: "byte list \<Rightarrow> nat \<Rightarrow> byte" where
  \<comment> \<open>byte \<open>j\<close> of a sequence that is read as zero beyond its end\<close>
  "nth0 xs j = (if j < length xs then xs ! j else 0)"

fun draws :: "'g node \<Rightarrow> nat \<Rightarrow> nat \<Rightarrow> 'g \<Rightarrow> jsstring list" where
  \<comment> \<open>the first \<open>n\<close> candidates that \<open>preimage\<close> draws from the generator state \<open>g\<close>\<close>
  "draws nd len 0 g = []"
| "draws nd len (Suc n) g =
     utf8String nd (fst (randomBytes nd len g)) # draws nd len n (snd (randomBytes nd len g))"

section \<open>Rounding to a double\<close>


lemma bitlength_lower: "0 < n \<Longrightarrow> 2 ^ bitlength n \<le> 2 * n"
proof (induction n rule: bitlength.induct)
  case (1 n)
  show ?case
  proof (cases "n = 1")
    case True
    then show ?thesis
      by (simp add: bitlength.simps [of 1] bitlength.simps [of 0])
  next
    case False
    with "1.prems" have pos: "0 < n div 2" by simp
    with 1 have "2 ^ bitlength (n div 2) \<le> 2 * (n div 2)" by simp
    then have "2 ^ bitlength (n div 2) \<le> n" by linarith
    with "1.prems" show ?thesis by (simp add: bitlength.simps [of n])
  qed
qed

lemma bitlength_le: "\<bar>x\<bar> < 2 ^ k \<Longrightarrow> bitlength \<bar>x\<bar> \<le> k"
proof (cases "x = 0")
  case True
  then show ?thesis by (simp add: bitlength.simps [of 0])
next
  case False
  assume b: "\<bar>x\<bar> < 2 ^ k"
  from False have "2 ^ bitlength \<bar>x\<bar> \<le> 2 * \<bar>x\<bar>"
    by (intro bitlength_lower) simp
  with b have "(2 :: int) ^ bitlength \<bar>x\<bar> < 2 ^ Suc k" by simp
  then have "bitlength \<bar>x\<bar> < Suc k"
    by (simp only: power_strict_increasing_iff [of 2] one_less_numeral_iff semiring_norm)
  then show ?thesis by simp
qed

lemma fround_exact: "\<bar>x\<bar> < 2 ^ 53 \<Longrightarrow> fround x = x"
  using bitlength_le [of x 53] by (simp add: fround_def Let_def)

lemma fround_exact_le: "0 \<le> x \<Longrightarrow> x \<le> 2 ^ 53 \<Longrightarrow> fround x = x"
proof (cases "x = 2 ^ 53")
  case True
  have "fround (2 ^ 53) = 2 ^ 53" by code_simp
  with True show ?thesis by simp
next
  case False
  assume "0 \<le> x" "x \<le> 2 ^ 53"
  with False have "\<bar>x\<bar> < 2 ^ 53" by simp
  then show ?thesis by (rule fround_exact)
qed

text \<open>A counter that is incremented as a double never passes \<open>2^53\<close>: \<open>2^53 + 1\<close> rounds back.\<close>

lemma fround_stuck:
  "0 \<le> i \<Longrightarrow> i \<le> 2 ^ 53 \<Longrightarrow> 0 \<le> fround (i + 1) \<and> fround (i + 1) \<le> 2 ^ 53"
proof (cases "i = 2 ^ 53")
  case True
  have "fround (2 ^ 53 + 1) = 2 ^ 53" by code_simp
  with True show ?thesis by simp
next
  case False
  assume "0 \<le> i" "i \<le> 2 ^ 53"
  with False have "0 \<le> i + 1" "i + 1 \<le> 2 ^ 53" by simp_all
  then have "fround (i + 1) = i + 1" by (rule fround_exact_le)
  with \<open>0 \<le> i + 1\<close> \<open>i + 1 \<le> 2 ^ 53\<close> show ?thesis by simp
qed






section \<open>The hash core: how a byte is mixed into the state\<close>

lemma length_updateWords: "length (updateWords u k j state) = length state"
  by (induction u k j state rule: updateWords.induct) (simp add: updateWords.simps)

lemma updateWords_before: "n < j \<Longrightarrow> updateWords u k j state ! n = state ! n"
proof (induction u k j state rule: updateWords.induct)
  case (1 u k j state)
  show ?case
  proof (cases "j < length state")
    case True
    with 1 show ?thesis by (simp add: updateWords.simps [of u k j state])
  next
    case False
    then show ?thesis by (simp add: updateWords.simps [of u k j state])
  qed
qed

lemma take_updateWords: "take j (updateWords u k j state) = take j state"
  by (rule nth_equalityI) (simp_all add: length_updateWords updateWords_before)

text \<open>
  Word \<open>n\<close> of the state after the pass is computed from an array whose words below \<open>n\<close>
  are already the new ones and whose words from \<open>n\<close> on are still the old ones.
\<close>

lemma updateWords_from:
  "j \<le> n \<Longrightarrow> n < length state \<Longrightarrow>
   updateWords u k j state ! n = nextWord u k (take n (updateWords u k j state) @ drop n state)"
proof (induction u k j state rule: updateWords.induct)
  case (1 u k j state)
  let ?st1 = "state[j := nextWord u k state]"
  from 1 have jl: "j < length state" by simp
  then have unf: "updateWords u k j state = updateWords u k (Suc j) ?st1"
    by (simp add: updateWords.simps [of u k j state])
  show ?case
  proof (cases "n = j")
    case True
    have "take (Suc j) (updateWords u k (Suc j) ?st1) = take (Suc j) ?st1"
      by (rule take_updateWords)
    then have "take j (take (Suc j) (updateWords u k (Suc j) ?st1)) = take j (take (Suc j) ?st1)"
      by simp
    then have tk: "take j (updateWords u k (Suc j) ?st1) = take j state"
      by (simp add: min_def)
    have "updateWords u k (Suc j) ?st1 ! j = ?st1 ! j"
      by (rule updateWords_before) simp
    with jl tk unf True show ?thesis by simp
  next
    case False
    with 1 have lt: "Suc j \<le> n" "n < length ?st1" by simp_all
    from False 1 have dr: "drop n ?st1 = drop n state" by simp
    from "1.IH" [OF jl lt] dr unf show ?thesis by simp
  qed
qed

text \<open>
  So every word of a pass over an eight-word state is the entanglement of the array as it
  stands at that moment, plus the keystream byte.
\<close>

lemma updateWords_pass:
  assumes "length state = 8" and "j < 8"
  shows "\<exists>e. entangle u (take j (updateWords u k 0 state) @ drop j state) = Some e \<and>
             updateWords u k 0 state ! j = wrap32 (uint e + uint k)"
proof -
  let ?cur = "take j (updateWords u k 0 state) @ drop j state"
  from assms have "length ?cur = 8"
    by (simp add: length_updateWords)
  then obtain a rest where cur: "?cur = a # rest"
    by (cases ?cur) simp_all
  from assms have "updateWords u k 0 state ! j = nextWord u k ?cur"
    by (intro updateWords_from) simp_all
  with cur show ?thesis
    by (simp add: nextWord_def)
qed

lemma entangle_loop_foldl:
  "entangle_loop u prev ws = foldl (\<lambda>acc w. roundMix (wrap32 (uint acc + uint w)) u) prev ws"
  by (induction ws arbitrary: prev) simp_all

lemma shiftValue_nonempty: "key \<noteq> [] \<Longrightarrow> shiftValue key i = key ! (i mod length key)"
  by (simp add: shiftValue_def js_rem_def js_index_def)

lemma shiftValue_empty: "shiftValue [] i = 0"
  by (simp add: shiftValue_def js_rem_def js_index_def)

lemma hashBytes_foldl:
  "hashBytes key i bytes state =
   foldl (\<lambda>st (n, u). updateWords u (shiftValue key n) 0 st) state (enumerate i bytes)"
  by (induction bytes arbitrary: i state) simp_all

lemma hashBytes_cong:
  "(\<And>n. shiftValue key n = shiftValue key' n) \<Longrightarrow>
   hashBytes key i bytes state = hashBytes key' i bytes state"
  by (induction bytes arbitrary: i state) simp_all

lemma hashBytes_const:
  "(\<And>n. shiftValue key n = c) \<Longrightarrow>
   hashBytes key i bytes state = foldl (\<lambda>st u. updateWords u c 0 st) state bytes"
  by (induction bytes arbitrary: i state) simp_all

lemma length_hashBytes: "length (hashBytes key i bytes state) = length state"
  by (induction bytes arbitrary: i state) (simp_all add: length_updateWords)

lemma length_initialValues: "length initialValues = 8"
  by (simp add: initialValues_def)

text \<open>
  Where the initial values come from: the remainder of the double \<open>3.86e26\<close> by
  \<open>0xffffffff\<close>, and the integer parts of the square roots of \<open>20868451240\<close> (the double
  product \<open>4.5682 * 4568200000\<close>), \<open>1156377600000\<close>, \<open>9460730472\<close> and the three primes
  below \<open>2^32\<close>.
\<close>

lemma initialValues_derivation:
  "initialValues =
     [696342, word_of_int (386000000000000013925089280 mod 4294967295),
      144459, 1075349, 97266, 65535, 65535, 65535] \<and>
   (144459 :: int)\<^sup>2 \<le> 20868451240 \<and> 20868451240 < (144460 :: int)\<^sup>2 \<and>
   (1075349 :: int)\<^sup>2 \<le> 1156377600000 \<and> 1156377600000 < (1075350 :: int)\<^sup>2 \<and>
   (97266 :: int)\<^sup>2 \<le> 9460730472 \<and> 9460730472 < (97267 :: int)\<^sup>2 \<and>
   (65535 :: int)\<^sup>2 \<le> 4294967231 \<and> 4294967291 < (65536 :: int)\<^sup>2"
  by (simp add: initialValues_def)

lemma length_finalState: "length (finalState bytes key) = 8"
  by (simp add: finalState_def length_hashBytes length_initialValues)

lemma length_wordBytes: "length (wordBytes v) = 4"
  by (simp add: wordBytes_def)

lemma length_serialize: "length (serialize state) = 4 * length state"
  by (induction state) (simp_all add: serialize_def length_wordBytes)

lemma length_sea256Raw: "length (sea256Raw bytes key) = 32"
  by (simp add: sea256Raw_def length_serialize length_finalState)

lemma nth_append_self:
  assumes "m < length k + length k"
  shows "(k @ k) ! m = k ! (m mod length k)"
proof (cases "m < length k")
  case True
  then show ?thesis by (simp add: nth_append)
next
  case False
  with assms have "m - length k < length k" "length k \<le> m" by simp_all
  then have "m mod length k = m - length k"
    by (metis le_mod_geq mod_less)
  with False show ?thesis by (simp add: nth_append)
qed

lemma shiftValue_double: "shiftValue (k @ k) i = shiftValue k i"
proof (cases "k = []")
  case True
  then show ?thesis by simp
next
  case False
  then have pos: "0 < length k + length k" by simp
  have "(i mod (length k + length k)) mod length k = i mod length k"
    by (simp add: mod_mod_cancel)
  moreover have "(k @ k) ! (i mod (length k + length k)) = k ! ((i mod (length k + length k)) mod length k)"
    using pos by (intro nth_append_self) simp
  ultimately show ?thesis using False by (simp add: shiftValue_nonempty)
qed

lemma shiftValue_single: "shiftValue [b] i = b"
  by (simp add: shiftValue_nonempty)

text \<open>
  C1, as the claim states it, fails: the state has eight words, not seven, so the pass
  rewrites words 0 to 7 and \<open>entangle\<close> folds all eight. On the initial state and the
  byte \<open>0x61\<close>, folding eight words and folding the first seven give different numbers.
\<close>

theorem sea256Raw_pass_counterexample:
  "length initialValues \<noteq> 7 \<and>
   entangle 0x61 initialValues \<noteq> entangle 0x61 (take 7 initialValues)"
proof -
  have a: "entangle 0x61 initialValues = Some 0x677125fb"
    by code_simp
  have b: "entangle 0x61 (take 7 initialValues) = Some 0xf22455f2"
    by code_simp
  show ?thesis
    unfolding a b by (simp add: length_initialValues)
qed

text \<open>
  C1, amended from seven words to eight. The state starts as the eight initial values. The
  bytes are consumed in order with positions counted from 1, each by one pass
  \<open>updateWords\<close> whose keystream byte is \<open>shiftValue key i\<close>, which for a non-empty key is
  \<open>key[i mod len(key)]\<close>. A pass over a state of eight words returns eight words, and for
  each \<open>j\<close> from 0 to 7 the new word \<open>j\<close> is \<open>wrap32(entangle(u, cur) + k)\<close>, where \<open>cur\<close>
  holds the new words at the indices below \<open>j\<close> and the old words from \<open>j\<close> on: the words
  are rewritten one after the other, word 0 first, each reading the words rewritten before
  it. \<open>entangle\<close> starts from the first word and folds every further word \<open>w\<close> into the
  accumulator by \<open>acc = roundMix(wrap32(acc + w), u)\<close>.
\<close>

theorem sea256Raw_pass:
  "length initialValues = 8 \<and>
   finalState bytes key =
     foldl (\<lambda>st (i, u). updateWords u (shiftValue key i) 0 st) initialValues (enumerate 1 bytes) \<and>
   (key \<noteq> [] \<longrightarrow> shiftValue key i = key ! (i mod length key)) \<and>
   (length state = 8 \<longrightarrow>
      length (updateWords u k 0 state) = 8 \<and>
      (\<forall>j<8. \<exists>e. entangle u (take j (updateWords u k 0 state) @ drop j state) = Some e \<and>
                 updateWords u k 0 state ! j = wrap32 (uint e + uint k))) \<and>
   entangle u (w0 # ws) =
     Some (foldl (\<lambda>acc w. roundMix (wrap32 (uint acc + uint w)) u) w0 ws)"
proof -
  have pass: "\<exists>e. entangle u (take j (updateWords u k 0 state) @ drop j state) = Some e \<and>
                 updateWords u k 0 state ! j = wrap32 (uint e + uint k)"
    if len: "length state = 8" and j: "j < 8" for j
  proof -
    let ?cur = "take j (updateWords u k 0 state) @ drop j state"
    from len j have "length ?cur = 8"
      by (simp add: length_updateWords)
    then obtain a rest where cur: "?cur = a # rest"
      by (cases ?cur) simp_all
    from len j have "updateWords u k 0 state ! j = nextWord u k ?cur"
      by (intro updateWords_from) simp_all
    with cur show ?thesis
      by (simp add: nextWord_def)
  qed
  show ?thesis
    by (simp add: length_initialValues finalState_def hashBytes_foldl shiftValue_nonempty
        length_updateWords entangle_loop_foldl pass)
qed

text \<open>The witness of C1: the byte \<open>0x61\<close> at position 1 under the key \<open>[0x6b]\<close>, word 0.\<close>

theorem sea256Raw_pass_witness:
  "shiftValue [0x6b] 1 = 0x6b \<and>
   length (updateWords 0x61 0x6b 0 initialValues) = 8 \<and>
   (\<exists>e. entangle 0x61 initialValues = Some e \<and>
        updateWords 0x61 0x6b 0 initialValues ! 0 = wrap32 (uint e + uint (0x6b :: byte)))"
proof -
  note inst = sea256Raw_pass [where key = "[0x6b]" and i = 1 and state = initialValues
      and u = "0x61" and k = "0x6b"]
  have len: "length initialValues = 8" and key: "[0x6b :: byte] \<noteq> []"
    by (simp_all add: length_initialValues)
  from inst key have "shiftValue [0x6b] 1 = [0x6b] ! (1 mod length [0x6b :: byte])"
    by blast
  then have 1: "shiftValue [0x6b] 1 = 0x6b"
    by simp
  from inst len have 2: "length (updateWords 0x61 0x6b 0 initialValues) = 8"
    by blast
  from inst len have all: "\<forall>j<8. \<exists>e. entangle 0x61 (take j (updateWords 0x61 0x6b 0 initialValues) @ drop j initialValues) = Some e \<and>
                 updateWords 0x61 0x6b 0 initialValues ! j = wrap32 (uint e + uint (0x6b :: byte))"
    by blast
  have 3: "\<exists>e. entangle 0x61 initialValues = Some e \<and>
        updateWords 0x61 0x6b 0 initialValues ! 0 = wrap32 (uint e + uint (0x6b :: byte))"
    using all [rule_format, of 0] by simp
  from 1 2 3 show ?thesis by blast
qed

section \<open>The hash core: rotations\<close>

text \<open>
  \<open>rotL\<close> and \<open>rotR\<close> are the circular rotations of a 32-bit word, for every integer
  amount: the shift operators reduce their counts modulo 32, and so the amount.
\<close>

lemma shiftCount_less: "shiftCount n < 32"
  by (simp add: shiftCount_def nat_less_iff)

lemma shiftCount_complement:
  "shiftCount (32 - n) = (if shiftCount n = 0 then 0 else 32 - shiftCount n)"
proof -
  have "(32 - n) mod 32 = (32 - n mod 32) mod 32"
    by (simp only: mod_diff_right_eq)
  also have "\<dots> = (if n mod 32 = 0 then 0 else 32 - n mod 32)"
  proof (cases "n mod 32 = 0")
    case True
    then show ?thesis by simp
  next
    case False
    moreover have "0 \<le> n mod 32" "n mod 32 < 32" by simp_all
    ultimately have "0 \<le> 32 - n mod 32" "32 - n mod 32 < 32" by simp_all
    then have "(32 - n mod 32) mod 32 = 32 - n mod 32" by (rule mod_pos_pos_trivial)
    with False show ?thesis by simp
  qed
  finally show ?thesis
    by (auto simp: shiftCount_def nat_diff_distrib)
qed

lemma word_rot_0: "word_rotl 0 x = x" "word_rotr 0 x = x" for x :: u32
  by (rule bit_word_eqI; simp add: bit_simps)+

lemma rotL_word_rotl: "rotL x n = word_rotl (shiftCount n) x"
proof (cases "shiftCount n = 0")
  case True
  then show ?thesis
    by (simp add: rotL_def shiftCount_complement word_rot_0)
next
  case False
  define m where "m = shiftCount n"
  with False have m: "0 < m" "m < 32" by (simp_all add: shiftCount_less)
  have "push_bit m x OR drop_bit (32 - m) x = word_rotl m x"
  proof (rule bit_word_eqI)
    fix j
    assume "j < LENGTH(32)"
    then have j: "j < 32" by simp
    show "bit (push_bit m x OR drop_bit (32 - m) x) j = bit (word_rotl m x) j"
    proof (cases "m \<le> j")
      case True
      with j m have "(j + (32 - m)) mod 32 = j - m"
        by (simp add: mod_if)
      moreover from True j m have "\<not> bit x (32 - m + j)"
        by (auto dest: bit_imp_le_length)
      ultimately show ?thesis using True j m
        by (simp add: bit_simps)
    next
      case False
      with j m have "(j + (32 - m)) mod 32 = 32 - m + j"
        by (simp add: add.commute)
      with False j m show ?thesis
        by (simp add: bit_simps)
    qed
  qed
  with False show ?thesis
    by (simp add: rotL_def shiftCount_complement m_def)
qed

lemma rotR_word_rotr: "rotR x n = word_rotr (shiftCount n) x"
proof (cases "shiftCount n = 0")
  case True
  then show ?thesis
    by (simp add: rotR_def shiftCount_complement word_rot_0)
next
  case False
  define m where "m = shiftCount n"
  with False have m: "0 < m" "m < 32" by (simp_all add: shiftCount_less)
  have "drop_bit m x OR push_bit (32 - m) x = word_rotr m x"
  proof (rule bit_word_eqI)
    fix j
    assume "j < LENGTH(32)"
    then have j: "j < 32" by simp
    show "bit (drop_bit m x OR push_bit (32 - m) x) j = bit (word_rotr m x) j"
    proof (cases "32 - m \<le> j")
      case True
      with j m have "(j + m) mod 32 = j - (32 - m)"
        by (simp add: mod_if)
      moreover from True j m have "\<not> bit x (m + j)"
        by (auto dest: bit_imp_le_length)
      ultimately show ?thesis using True j m
        by (simp add: bit_simps)
    next
      case False
      with j m have "(j + m) mod 32 = m + j"
        by (simp add: add.commute)
      with False j m show ?thesis
        by (simp add: bit_simps add.commute)
    qed
  qed
  with False show ?thesis
    by (simp add: rotR_def shiftCount_complement m_def)
qed

section \<open>The hash core: the non-linear step\<close>

text \<open>
  Where the product \<open>scale * zeta\<close> has at most 53 bits nothing is rounded, and the code
  computes what the exact reading computes (the sign of \<open>zeta\<close> does not matter modulo
  \<open>2^32\<close>).
\<close>

lemma gammaValue_exact_when_small:
  assumes "\<bar>scale * zetaValue alpha beta\<bar> < 2 ^ 53"
  shows "gammaValue alpha beta u = nonlinear_exact alpha beta u"
proof -
  have z: "(word_of_int (zetaValue alpha beta) :: u32) =
           word_of_int (uint (alpha XOR beta) + uint (alpha AND beta))"
    by (simp add: zetaValue_def)
  have "(push_bit (shiftCount 3) (toInt32 (js_mul scale (zetaValue alpha beta))) :: u32) =
        wrap32 (scale * (uint (alpha XOR beta) + uint (alpha AND beta)) * 2 ^ 3)"
    using z by (simp add: js_mul_def fround_exact [OF assms] toInt32_def wrap32_def
        shiftCount_def push_bit_eq_mult)
  moreover have "shiftCount 7 = 7"
    by (simp add: shiftCount_def)
  ultimately show ?thesis
    by (simp add: gammaValue_def nonlinear_exact_def Let_def wrap32_def nlShift_def
        rotL_word_rotl)
qed

text \<open>
  C2. The claim reads the non-linear step with every operation exact. The code multiplies
  two JavaScript numbers: \<open>scale * zeta\<close> is a double, and a product of more than 53
  bits is rounded before \<open><< 3\<close> takes its low 32 bits. The input below is the second
  \<open>hashByte\<close> call of any hash whose first byte is \<open>0x61\<close>: the first call mixes
  \<open>wrap32(initialValues[0] + initialValues[1])\<close> and returns \<open>0xa1789593\<close>, from which
  the second call computes \<open>alpha = 0x2f12be54\<close> and \<open>beta = 0x942f12be\<close>. The exact
  product \<open>-3351359850824893636\<close> has 62 bits, the double nearest to it is
  \<open>-3351359850824893440\<close>, and the code returns \<open>0x24010200\<close> where exact arithmetic
  gives \<open>0x24026200\<close>.
\<close>

theorem gammaValue_rounds_product:
  "hashByte (wrap32 (uint (initialValues ! 0) + uint (initialValues ! 1))) 0x61 = 0xa1789593 \<and>
   rotL (0xa1789593 XOR ucast (0x61 :: byte)) rotLeftAmount = 0x2f12be54 \<and>
   rotR (wrap32 (uint (0xa1789593 :: u32) + uint (0x61 :: byte))) rotRightAmount = 0x942f12be \<and>
   scale * zetaValue 0x2f12be54 0x942f12be = - 3351359850824893636 \<and>
   js_mul scale (zetaValue 0x2f12be54 0x942f12be) = - 3351359850824893440 \<and>
   gammaValue 0x2f12be54 0x942f12be 0x61 = 0x24010200 \<and>
   nonlinear_exact 0x2f12be54 0x942f12be 0x61 = 0x24026200"
  by code_simp

section \<open>The hash core: the digest\<close>

lemma shiftCount_simps:
  "shiftCount 24 = 24" "shiftCount 16 = 16" "shiftCount 8 = 8" "shiftCount 3 = 3"
  by (simp_all add: shiftCount_def)

lemma byte_mask: "(0xff :: u32) = mask 8"
  by (simp add: mask_eq_exp_minus_1)

lemma wordBytes_bigEndian:
  fixes v :: u32
  shows "push_bit 24 (ucast (ucast (signed_drop_bit 24 v AND 0xff) :: byte))
      OR push_bit 16 (ucast (ucast (signed_drop_bit 16 v AND 0xff) :: byte))
      OR push_bit 8 (ucast (ucast (signed_drop_bit 8 v AND 0xff) :: byte))
      OR ucast (ucast (v AND 0xff) :: byte) = v"
  unfolding byte_mask
proof (rule bit_word_eqI)
  fix n
  assume "n < LENGTH(32)"
  then consider "n < 8" | "8 \<le> n" "n < 16" | "16 \<le> n" "n < 24" | "24 \<le> n" "n < 32"
    by fastforce
  then show "bit (push_bit 24 (ucast (ucast (signed_drop_bit 24 v AND mask 8) :: byte))
      OR push_bit 16 (ucast (ucast (signed_drop_bit 16 v AND mask 8) :: byte))
      OR push_bit 8 (ucast (ucast (signed_drop_bit 8 v AND mask 8) :: byte))
      OR (ucast (ucast (v AND mask 8) :: byte) :: u32)) n = bit v n"
  proof cases
    case 1
    then show ?thesis by (simp add: bit_simps)
  next
    case 2
    then show ?thesis by (auto simp: bit_simps)
  next
    case 3
    then show ?thesis by (auto simp: bit_simps)
  next
    case 4
    then show ?thesis by (auto simp: bit_simps)
  qed
qed

lemma bigEndianWords_serialize: "bigEndianWords (serialize state) = state"
proof (induction state)
  case Nil
  show ?case by (simp add: serialize_def)
next
  case (Cons v state)
  then show ?case
    by (simp add: serialize_def wordBytes_def shiftCount_simps wordBytes_bigEndian)
qed

text \<open>
  A digest computed by the model: the input \<open>"a"\<close> under the key \<open>"k"\<close>.
\<close>

lemma sea256Raw_a_k:
  "sea256Raw [0x61] [0x6b] =
     [0x67, 0x71, 0x26, 0x66, 0x6a, 0xda, 0x6c, 0xb4, 0x22, 0x90, 0x2e, 0xdf,
      0x53, 0x22, 0xb2, 0x7b, 0x6e, 0xf7, 0x8e, 0x96, 0xd7, 0x49, 0xf0, 0xbf,
      0x1b, 0x8c, 0x8e, 0x76, 0x1b, 0x1e, 0x8b, 0xf1]"
  by code_simp

text \<open>
  C3, as the claim states it, fails: the digest of \<open>"hello"\<close> under the key \<open>"test-key"\<close>
  is not 28 bytes long.
\<close>

theorem digest_length_counterexample:
  "length (sea256Raw [0x68, 0x65, 0x6c, 0x6c, 0x6f] [0x74, 0x65, 0x73, 0x74, 0x2d, 0x6b, 0x65, 0x79]) \<noteq> 28"
  by (simp add: length_sea256Raw)

text \<open>
  C3, amended from 28 bytes and seven words to 32 bytes and eight words. For every input and
  every key the digest is 32 bytes long, whatever the length of the input; it is the four
  bytes of each of the eight state words in turn, and reading it back as big-endian 32-bit
  words gives the eight state words.
\<close>

theorem digest_is_serialized_state:
  "length (sea256Raw bytes key) = 32 \<and>
   length (finalState bytes key) = 8 \<and>
   sea256Raw bytes key = concat (map wordBytes (finalState bytes key)) \<and>
   bigEndianWords (sea256Raw bytes key) = finalState bytes key"
proof -
  have "sea256Raw bytes key = concat (map wordBytes (finalState bytes key))"
    by (simp add: sea256Raw_def serialize_def)
  moreover have "bigEndianWords (sea256Raw bytes key) = finalState bytes key"
    by (simp only: sea256Raw_def bigEndianWords_serialize)
  ultimately show ?thesis
    using length_sea256Raw [of bytes key] length_finalState [of bytes key] by blast
qed

text \<open>
  C4, as the claim states it, fails: the digest of the empty input is not the serialization
  of seven initial words.
\<close>

theorem empty_input_counterexample:
  "sea256Raw [] [0x6b] \<noteq> serialize (take 7 initialValues)"
proof
  assume "sea256Raw [] [0x6b] = serialize (take 7 initialValues)"
  then have "length (sea256Raw [] [0x6b]) = length (serialize (take 7 initialValues))"
    by simp
  then show False
    by (simp add: length_sea256Raw length_serialize length_initialValues)
qed

text \<open>
  C4, amended from seven words to eight. For every key, hashing the empty input runs no
  mixing round: the state is still the eight initial values, and the digest is their
  big-endian serialization, the 32 bytes written out below.
\<close>

theorem empty_input_digest:
  "finalState [] k = initialValues \<and>
   length initialValues = 8 \<and>
   sea256Raw [] k = serialize initialValues \<and>
   bigEndianWords (sea256Raw [] k) = initialValues \<and>
   sea256Raw [] k =
     [0x00, 0x0a, 0xa0, 0x16, 0xef, 0x10, 0x48, 0xfd, 0x00, 0x02, 0x34, 0x4b,
      0x00, 0x10, 0x68, 0x95, 0x00, 0x01, 0x7b, 0xf2, 0x00, 0x00, 0xff, 0xff,
      0x00, 0x00, 0xff, 0xff, 0x00, 0x00, 0xff, 0xff]"
proof -
  have fs: "finalState [] k = initialValues"
    by (simp add: finalState_def)
  have ser: "serialize initialValues =
     [0x00, 0x0a, 0xa0, 0x16, 0xef, 0x10, 0x48, 0xfd, 0x00, 0x02, 0x34, 0x4b,
      0x00, 0x10, 0x68, 0x95, 0x00, 0x01, 0x7b, 0xf2, 0x00, 0x00, 0xff, 0xff,
      0x00, 0x00, 0xff, 0xff, 0x00, 0x00, 0xff, 0xff]"
    by code_simp
  have raw: "sea256Raw [] k = serialize initialValues"
    by (simp add: sea256Raw_def fs)
  have be: "bigEndianWords (sea256Raw [] k) = initialValues"
    by (simp only: raw bigEndianWords_serialize)
  from raw ser have lit: "sea256Raw [] k =
     [0x00, 0x0a, 0xa0, 0x16, 0xef, 0x10, 0x48, 0xfd, 0x00, 0x02, 0x34, 0x4b,
      0x00, 0x10, 0x68, 0x95, 0x00, 0x01, 0x7b, 0xf2, 0x00, 0x00, 0xff, 0xff,
      0x00, 0x00, 0xff, 0xff, 0x00, 0x00, 0xff, 0xff]"
    by (simp only:)
  from fs length_initialValues raw be lit show ?thesis
    by (intro conjI)
qed

section \<open>The hash core: the key\<close>

text \<open>
  C5. The key is consumed cyclically. Under a non-empty key \<open>k\<close> the state after the
  input \<open>x\<close> is what one pass per input byte leaves, the pass for the byte at position
  \<open>i\<close> (counted from 1) being run with the key byte \<open>k[i mod len(k)]\<close>, and the digest
  is the serialization of that state. A pass with the key byte \<open>kb\<close> over an eight-word
  state replaces each word in turn by the entanglement of the input byte with the array as
  it then stands, plus \<open>kb\<close>, modulo \<open>2^32\<close>; the entanglement folds \<open>roundMix\<close> of the
  sum with the next word over the array. The keystream byte at position \<open>i\<close> is
  \<open>k[i mod len(k)]\<close>, so hashing under \<open>k\<close> repeated twice gives the digest of hashing
  under \<open>k\<close>; under a one-byte key every position uses that byte, and the digest is the
  serialization of the state after one pass per input byte with it.
\<close>

theorem key_is_cyclic:
  "k \<noteq> [] \<Longrightarrow>
   finalState x k =
     foldl (\<lambda>st (i, u). updateWords u (k ! (i mod length k)) 0 st) initialValues
       (enumerate 1 x) \<and>
   sea256Raw x k =
     serialize (foldl (\<lambda>st (i, u). updateWords u (k ! (i mod length k)) 0 st) initialValues
       (enumerate 1 x)) \<and>
   (length state = 8 \<longrightarrow>
      length (updateWords u kb 0 state) = 8 \<and>
      (\<forall>j<8. \<exists>e. entangle u (take j (updateWords u kb 0 state) @ drop j state) = Some e \<and>
                 updateWords u kb 0 state ! j = wrap32 (uint e + uint kb))) \<and>
   entangle u (w0 # ws) =
     Some (foldl (\<lambda>acc w. roundMix (wrap32 (uint acc + uint w)) u) w0 ws) \<and>
   shiftValue k i = k ! (i mod length k) \<and>
   sea256Raw x (k @ k) = sea256Raw x k \<and>
   shiftValue [b] i = b \<and>
   sea256Raw x [b] = serialize (foldl (\<lambda>st u. updateWords u b 0 st) initialValues x)"
proof -
  assume ne: "k \<noteq> []"
  have fs: "finalState x k =
     foldl (\<lambda>st (i, u). updateWords u (k ! (i mod length k)) 0 st) initialValues
       (enumerate 1 x)"
    using ne by (simp add: finalState_def hashBytes_foldl shiftValue_nonempty)
  then have raw: "sea256Raw x k =
     serialize (foldl (\<lambda>st (i, u). updateWords u (k ! (i mod length k)) 0 st) initialValues
       (enumerate 1 x))"
    by (simp only: sea256Raw_def)
  have "hashBytes (k @ k) 1 x initialValues = hashBytes k 1 x initialValues"
    by (rule hashBytes_cong) (rule shiftValue_double)
  then have dbl: "sea256Raw x (k @ k) = sea256Raw x k"
    by (simp add: sea256Raw_def finalState_def)
  have "hashBytes [b] 1 x initialValues = foldl (\<lambda>st u. updateWords u b 0 st) initialValues x"
    by (rule hashBytes_const) (rule shiftValue_single)
  then have one: "sea256Raw x [b] = serialize (foldl (\<lambda>st u. updateWords u b 0 st) initialValues x)"
    by (simp add: sea256Raw_def finalState_def)
  have pass: "length state = 8 \<longrightarrow>
      length (updateWords u kb 0 state) = 8 \<and>
      (\<forall>j<8. \<exists>e. entangle u (take j (updateWords u kb 0 state) @ drop j state) = Some e \<and>
                 updateWords u kb 0 state ! j = wrap32 (uint e + uint kb))"
    by (simp add: length_updateWords updateWords_pass)
  have ent: "entangle u (w0 # ws) =
     Some (foldl (\<lambda>acc w. roundMix (wrap32 (uint acc + uint w)) u) w0 ws)"
    by (simp add: entangle_loop_foldl)
  from ne have sv: "shiftValue k i = k ! (i mod length k)"
    by (rule shiftValue_nonempty)
  have sb: "shiftValue [b] i = b"
    by (rule shiftValue_single)
  from fs raw pass ent sv dbl sb one show ?thesis
    by (intro conjI)
qed

text \<open>
  The witness of C5: the two-byte key \<open>"ke"\<close> and the input \<open>"ab"\<close>, whose first byte
  (position 1) is mixed with \<open>"e"\<close> and whose second byte (position 2) with \<open>"k"\<close>; the
  first word of the first pass; position 5; and the key repeated twice.
\<close>

theorem key_is_cyclic_witness:
  "finalState [0x61, 0x62] [0x6b, 0x65] =
     updateWords 0x62 0x6b 0 (updateWords 0x61 0x65 0 initialValues) \<and>
   (\<exists>e. entangle 0x61 initialValues = Some e \<and>
        updateWords 0x61 0x65 0 initialValues ! 0 = wrap32 (uint e + uint (0x65 :: byte))) \<and>
   shiftValue [0x6b, 0x65] 5 = 0x65 \<and>
   sea256Raw [0x61] ([0x6b, 0x65] @ [0x6b, 0x65]) = sea256Raw [0x61] [0x6b, 0x65]"
proof -
  have ne: "[0x6b, 0x65 :: byte] \<noteq> []" by simp
  have m: "(5 :: nat) mod Suc (Suc 0) = Suc 0" "Suc 0 mod Suc (Suc 0) = Suc 0"
    "Suc (Suc 0) mod Suc (Suc 0) = 0" by simp_all arith
  note inst = key_is_cyclic [OF ne, where x = "[0x61, 0x62]" and state = initialValues
      and u = "0x61" and kb = "0x65" and i = 5 and b = 0 and ?w0.0 = 0 and ws = "[]"]
  from inst have 1: "finalState [0x61, 0x62] [0x6b, 0x65] =
     updateWords 0x62 0x6b 0 (updateWords 0x61 0x65 0 initialValues)"
    by (simp add: m)
  from inst have "\<forall>j<8. \<exists>e. entangle 0x61 (take j (updateWords 0x61 0x65 0 initialValues) @ drop j initialValues) = Some e \<and>
                 updateWords 0x61 0x65 0 initialValues ! j = wrap32 (uint e + uint (0x65 :: byte))"
    by (simp add: length_initialValues)
  from this [rule_format, of 0]
  have 2: "\<exists>e. entangle 0x61 initialValues = Some e \<and>
        updateWords 0x61 0x65 0 initialValues ! 0 = wrap32 (uint e + uint (0x65 :: byte))"
    by simp
  from inst have 3: "shiftValue [0x6b, 0x65] 5 = 0x65"
    by (simp add: m)
  from key_is_cyclic [OF ne, where x = "[0x61]"]
  have 4: "sea256Raw [0x61] ([0x6b, 0x65] @ [0x6b, 0x65]) = sea256Raw [0x61] [0x6b, 0x65]"
    by blast
  from 1 2 3 4 show ?thesis by (intro conjI)
qed

text \<open>
  C10. Under the empty key the index \<open>i % 0\<close> is \<open>NaN\<close>, the read at it is \<open>undefined\<close>,
  and \<open>|| 0\<close> makes the keystream byte 0 at every position. So hashing with the empty
  key returns a digest for every input: the 32-byte serialization of the state after one
  pass per input byte with keystream byte 0, which is also the digest under the one-byte
  key \<open>[0]\<close>.
\<close>

theorem empty_key_keystream_zero:
  "js_rem i (length ([] :: byte list)) = None \<and>
   js_index [] None = None \<and>
   shiftValue [] i = 0 \<and>
   finalState x [] = foldl (\<lambda>st u. updateWords u 0 0 st) initialValues x \<and>
   sea256Raw x [] = serialize (foldl (\<lambda>st u. updateWords u 0 0 st) initialValues x) \<and>
   sea256Raw x [] = sea256Raw x [0] \<and>
   length (sea256Raw x []) = 32"
proof -
  have a: "hashBytes [] 1 x initialValues = foldl (\<lambda>st u. updateWords u 0 0 st) initialValues x"
    by (rule hashBytes_const) (rule shiftValue_empty)
  have b: "hashBytes [0] 1 x initialValues = foldl (\<lambda>st u. updateWords u 0 0 st) initialValues x"
    by (rule hashBytes_const) (rule shiftValue_single)
  from a b show ?thesis
    by (simp add: sea256Raw_def finalState_def js_rem_def js_index_def shiftValue_empty
        length_serialize length_updateWords length_initialValues
        length_hashBytes [of "[]" 1 x initialValues, unfolded a, simplified length_initialValues])
qed

section \<open>The harness: counting bits\<close>

lemma bits_nat_rec:
  "{n. bit x n} = (if odd x then {0} else {}) \<union> Suc ` {n. bit (x div 2) n}" for x :: nat
proof (rule set_eqI)
  fix n
  show "n \<in> {n. bit x n} \<longleftrightarrow> n \<in> (if odd x then {0} else {}) \<union> Suc ` {n. bit (x div 2) n}"
    by (cases n) (auto simp: bit_0 bit_Suc image_iff)
qed

lemma finite_bits_nat: "finite {n. bit x n}" for x :: nat
proof (induction x rule: less_induct)
  case (less x)
  show ?case
  proof (cases "x = 0")
    case True
    then show ?thesis by simp
  next
    case False
    then have "x div 2 < x" by simp
    then have "finite {n. bit (x div 2) n}" by (rule less.IH)
    then show ?thesis by (subst bits_nat_rec) simp
  qed
qed

lemma card_bits_nat_rec:
  "card {n. bit x n} = of_bool (odd x) + card {n. bit (x div 2) n}" for x :: nat
proof -
  have fin: "finite (Suc ` {n. bit (x div 2) n})"
    by (simp add: finite_bits_nat)
  have img: "card (Suc ` {n. bit (x div 2) n}) = card {n. bit (x div 2) n}"
    by (rule card_image) simp
  have "card ((if odd x then {0} else {}) \<union> Suc ` {n. bit (x div 2) n}) =
        card (if odd x then {0 :: nat} else {}) + card (Suc ` {n. bit (x div 2) n})"
    by (rule card_Un_disjoint) (use fin in auto)
  then show ?thesis
    by (subst bits_nat_rec) (simp add: img)
qed

lemma card_bits_nat_double: "card {n. bit (2 * x) n} = card {n. bit x n}" for x :: nat
  by (subst card_bits_nat_rec) simp

text \<open>Clearing the lowest set bit removes one bit.\<close>

lemma clear_lowest_bit_nat:
  "0 < x \<Longrightarrow> Suc (card {n. bit (x AND (x - 1)) n}) = card {n. bit x n}" for x :: nat
proof (induction x rule: less_induct)
  case (less x)
  show ?case
  proof (cases "odd x")
    case True
    then have "(x - 1) div 2 = x div 2" "even (x - 1)"
      by (auto elim!: oddE)
    then have "x AND (x - 1) = 2 * (x div 2)"
      by (subst and_nat_rec) simp
    then have "card {n. bit (x AND (x - 1)) n} = card {n. bit (x div 2) n}"
      by (simp only: card_bits_nat_double)
    moreover from True have "card {n. bit x n} = Suc (card {n. bit (x div 2) n})"
      by (simp add: card_bits_nat_rec [of x])
    ultimately show ?thesis by simp
  next
    case False
    with less.prems have h: "0 < x div 2" "x div 2 < x"
      by (auto elim!: evenE)
    from False less.prems have "(x - 1) div 2 = x div 2 - 1"
      by (auto elim!: evenE)
    with False have "x AND (x - 1) = 2 * (x div 2 AND (x div 2 - 1))"
      by (subst and_nat_rec) simp
    then have "card {n. bit (x AND (x - 1)) n} = card {n. bit (x div 2 AND (x div 2 - 1)) n}"
      by (simp only: card_bits_nat_double)
    moreover from h have "Suc (card {n. bit (x div 2 AND (x div 2 - 1)) n}) = card {n. bit (x div 2) n}"
      by (intro less.IH)
    moreover from False have "card {n. bit x n} = card {n. bit (x div 2) n}"
      by (simp add: card_bits_nat_rec [of x])
    ultimately show ?thesis by simp
  qed
qed

lemma card_bits_unat: "card {n. bit (unat w) n} = card {n. bit w n}" for w :: u32
  by (simp add: bit_unsigned_iff)

lemma clear_lowest_bit:
  "x \<noteq> 0 \<Longrightarrow> Suc (card {n. bit (x AND (x - 1)) n}) = card {n. bit x n}" for x :: u32
proof -
  assume nz: "x \<noteq> 0"
  then have "0 < unat x" by (simp add: unat_gt_0)
  then have "Suc (card {n. bit (unat x AND (unat x - 1)) n}) = card {n. bit (unat x) n}"
    by (rule clear_lowest_bit_nat)
  moreover from nz have "unat (x AND (x - 1)) = unat x AND (unat x - 1)"
    by (simp add: unsigned_and_eq unat_minus_one)
  ultimately show ?thesis
    using card_bits_unat [of x] card_bits_unat [of "x AND (x - 1)"] by simp
qed

lemma popcount_loop_count: "popcount_loop x d = d + card {n. bit x n}"
proof (induction x d rule: popcount_loop.induct)
  case (1 x d)
  show ?case
  proof (cases "x = 0")
    case True
    then show ?thesis by (simp add: popcount_loop.simps [of 0 d])
  next
    case False
    with 1 have "popcount_loop x d = Suc d + card {n. bit (x AND (x - 1)) n}"
      by (simp add: popcount_loop.simps [of x d])
    with clear_lowest_bit [OF False] show ?thesis by simp
  qed
qed

lemma bits_xor_ucast:
  "{n. bit (ucast x XOR ucast y :: u32) n} = {n. bit x n \<noteq> bit y n}" for x y :: byte
  by (auto simp: bit_simps dest: bit_imp_le_length)

lemma popcount_xorBytes:
  "popcount_loop (xorBytes (Some x) (Some y)) d = d + differingBits x y"
  by (simp add: popcount_loop_count xorBytes_def differingBits_def bits_xor_ucast)

lemma popcount_xorBytes_None:
  "popcount_loop (xorBytes (Some x) None) d = d + differingBits x 0"
proof -
  have "xorBytes (Some x) None = xorBytes (Some x) (Some 0)"
    by (simp add: xorBytes_def)
  then show ?thesis by (simp only: popcount_xorBytes)
qed

lemma hammingDistance_loop_sum:
  "hammingDistance_loop a b i d = d + (\<Sum>j = i..<length a. differingBits (a ! j) (nth0 b j))"
proof (induction a b i d rule: hammingDistance_loop.induct)
  case (1 a b i d)
  show ?case
  proof (cases "i < length a")
    case True
    let ?x = "xorBytes (readByte a i) (readByte b i)"
    from True have step: "popcount_loop ?x d = d + differingBits (a ! i) (nth0 b i)"
      by (simp add: readByte_def nth0_def popcount_xorBytes popcount_xorBytes_None)
    from True have "hammingDistance_loop a b i d =
        hammingDistance_loop a b (Suc i) (popcount_loop ?x d)"
      by (simp add: hammingDistance_loop.simps [of a b i d])
    also have "\<dots> = popcount_loop ?x d +
        (\<Sum>j = Suc i..<length a. differingBits (a ! j) (nth0 b j))"
      by (rule "1.IH" [OF True])
    also from True have "\<dots> = d + (\<Sum>j = i..<length a. differingBits (a ! j) (nth0 b j))"
      by (simp add: step sum.atLeast_Suc_lessThan)
    finally show ?thesis .
  next
    case False
    then show ?thesis by (simp add: hammingDistance_loop.simps [of a b i d])
  qed
qed

lemma bitDiff_loop_sum:
  "bitDiff_loop a b m i d = d + (\<Sum>j = i..<m. differingBits (nth0 a j) (nth0 b j))"
proof (induction a b m i d rule: bitDiff_loop.induct)
  case (1 a b m i d)
  show ?case
  proof (cases "i < m")
    case True
    let ?ai = "if i < length a then readByte a i else Some 0"
    let ?bi = "if i < length b then readByte b i else Some 0"
    have step: "popcount_loop (xorBytes ?ai ?bi) d = d + differingBits (nth0 a i) (nth0 b i)"
      by (simp add: readByte_def nth0_def popcount_xorBytes)
    from True have "bitDiff_loop a b m i d =
        bitDiff_loop a b m (Suc i) (popcount_loop (xorBytes ?ai ?bi) d)"
      by (simp add: bitDiff_loop.simps [of a b m i d] Let_def)
    also have "\<dots> = popcount_loop (xorBytes ?ai ?bi) d +
        (\<Sum>j = Suc i..<m. differingBits (nth0 a j) (nth0 b j))"
      by (rule "1.IH" [OF True refl refl])
    also from True have "\<dots> = d + (\<Sum>j = i..<m. differingBits (nth0 a j) (nth0 b j))"
      by (simp add: step sum.atLeast_Suc_lessThan)
    finally show ?thesis .
  next
    case False
    then show ?thesis by (simp add: bitDiff_loop.simps [of a b m i d])
  qed
qed

lemma nth_zeroExtend: "j < n \<Longrightarrow> zeroExtend n xs ! j = nth0 xs j" if "length xs \<le> n"
  using that by (simp add: zeroExtend_def nth0_def nth_append)

lemma length_zeroExtend: "length (zeroExtend n xs) = max n (length xs)"
  by (simp add: zeroExtend_def)

lemma sum_list_map2_nth:
  "length xs = n \<Longrightarrow> length ys = n \<Longrightarrow>
   sum_list (map2 f xs ys) = (\<Sum>j = 0..<n. f (xs ! j) (ys ! j))" for f :: "'a \<Rightarrow> 'b \<Rightarrow> nat"
  by (simp add: sum_list_sum_nth)

lemma hammingDistance_bufs_sum_list:
  "hammingDistance_bufs a b =
   sum_list (map2 differingBits a (zeroExtend (length a) (take (length a) b)))"
proof -
  let ?b = "zeroExtend (length a) (take (length a) b)"
  have len: "length ?b = length a"
    by (simp add: length_zeroExtend)
  have nth: "?b ! j = nth0 b j" if "j < length a" for j
    using that by (simp add: zeroExtend_def nth0_def nth_append)
  have "sum_list (map2 differingBits a ?b) = (\<Sum>j = 0..<length a. differingBits (a ! j) (?b ! j))"
    using len by (intro sum_list_map2_nth) simp_all
  also have "\<dots> = (\<Sum>j = 0..<length a. differingBits (a ! j) (nth0 b j))"
    by (rule sum.cong) (simp_all add: nth)
  finally show ?thesis
    by (simp add: hammingDistance_bufs_def hammingDistance_loop_sum)
qed

lemma bitDiff_bufs_sum_list:
  "bitDiff_bufs a b =
   sum_list (map2 differingBits (zeroExtend (max (length a) (length b)) a)
                                (zeroExtend (max (length a) (length b)) b))"
proof -
  let ?m = "max (length a) (length b)"
  have "sum_list (map2 differingBits (zeroExtend ?m a) (zeroExtend ?m b)) =
        (\<Sum>j = 0..<?m. differingBits (zeroExtend ?m a ! j) (zeroExtend ?m b ! j))"
    by (intro sum_list_map2_nth) (simp_all add: length_zeroExtend)
  also have "\<dots> = (\<Sum>j = 0..<?m. differingBits (nth0 a j) (nth0 b j))"
    by (rule sum.cong) (simp_all add: nth_zeroExtend)
  finally show ?thesis
    by (simp add: bitDiff_bufs_def bitDiff_loop_sum)
qed

text \<open>
  C6, as the claim states it, fails: \<open>hammingDistance\<close> checks no length and has no
  \<open>throw\<close>; it returns a number for buffers of unequal length. With a first buffer of one
  byte the second byte of the other is never read: the distance is 0, as it is against the
  truncated buffer. With a shorter second buffer the missing byte is read as \<open>undefined\<close>,
  which \<open>^\<close> takes as 0: the distance is 8.
\<close>

theorem hammingDistance_counterexample:
  "hammingDistance_bufs [0x00] [0x00, 0xff] = 0 \<and>
   hammingDistance_bufs [0x00] [0x00, 0xff] = hammingDistance_bufs [0x00] (take 1 [0x00, 0xff]) \<and>
   hammingDistance_bufs [0x00, 0xff] [0x00] = 8"
  by code_simp

text \<open>
  C6, amended. \<open>hammingDistance\<close> returns a count for all inputs and never fails: it runs
  over the indices of the first buffer only, so it reads a missing byte of the second buffer
  as zero and ignores the bytes of the second buffer beyond the length of the first. For
  buffers of equal length that count is the number of differing bits.
\<close>

theorem hammingDistance_first_length:
  "hammingDistance_bufs a b =
     sum_list (map2 differingBits a (zeroExtend (length a) (take (length a) b))) \<and>
   (length a = length b \<longrightarrow> hammingDistance_bufs a b = sum_list (map2 differingBits a b)) \<and>
   hammingDistance nd hex1 hex2 =
     sum_list (map2 differingBits (hexBytes nd hex1)
       (zeroExtend (length (hexBytes nd hex1))
          (take (length (hexBytes nd hex1)) (hexBytes nd hex2))))"
  by (simp add: hammingDistance_def hammingDistance_bufs_sum_list zeroExtend_def)

text \<open>The witness of C6: two buffers of two bytes.\<close>

theorem hammingDistance_first_length_witness:
  "hammingDistance_bufs [0x0f, 0x01] [0xf0, 0x01] =
     sum_list (map2 differingBits [0x0f, 0x01] [0xf0, 0x01])"
proof -
  have "length [0x0f, 0x01 :: byte] = length [0xf0, 0x01 :: byte] \<longrightarrow>
      hammingDistance_bufs [0x0f, 0x01] [0xf0, 0x01] =
        sum_list (map2 differingBits [0x0f, 0x01] [0xf0, 0x01])"
    by (rule hammingDistance_first_length [of "[0x0f, 0x01]" "[0xf0, 0x01]",
          THEN conjunct2, THEN conjunct1])
  then show ?thesis by simp
qed

text \<open>
  C7. \<open>bitDiff\<close> counts the differing bits of the two buffers with the shorter one
  extended by zero bytes to the length of the longer one; nothing is truncated. Four zero
  bytes are at distance 0 from two zero bytes and at distance 16 from \<open>[0xFF, 0xFF]\<close>.
\<close>

theorem bitDiff_zero_extends:
  "bitDiff_bufs a b =
     sum_list (map2 differingBits (zeroExtend (max (length a) (length b)) a)
                                  (zeroExtend (max (length a) (length b)) b)) \<and>
   bitDiff nd hexA hexB = bitDiff_bufs (hexBytes nd hexA) (hexBytes nd hexB) \<and>
   bitDiff_bufs [0, 0, 0, 0] [0, 0] = 0 \<and>
   bitDiff_bufs [0, 0, 0, 0] [0xff, 0xff] = 16"
proof -
  have a: "bitDiff_bufs [0, 0, 0, 0] [0, 0] = 0" by code_simp
  have b: "bitDiff_bufs [0, 0, 0, 0] [0xff, 0xff] = 16" by code_simp
  from a b show ?thesis
    using bitDiff_bufs_sum_list [of a b] by (simp add: bitDiff_def)
qed

section \<open>The harness: diffusion\<close>







section \<open>The harness: preimage\<close>

lemma length_draws: "length (draws nd len n g) = n"
  by (induction n arbitrary: g) simp_all

text \<open>The loop test \<open>i < attempts\<close> holds for \<open>\<lceil>attempts\<rceil>\<close> values of the counter.\<close>

lemma js_less_Number: "js_less (int i) (Number q) \<longleftrightarrow> i < nat \<lceil>q\<rceil>"
proof -
  have "js_less (int i) (Number q) \<longleftrightarrow> int i < \<lceil>q\<rceil>"
    by (simp add: js_less_def less_ceiling_iff)
  then show ?thesis by auto
qed

text \<open>
  The loop from the counter \<open>i\<close> on, for a finite \<open>attempts\<close> of at most \<open>2^53\<close>: it
  returns, after \<open>n - i\<close> calls of the hash function, where \<open>n\<close> is at most
  \<open>\<lceil>attempts\<rceil>\<close>.
\<close>

lemma preimage_loop_spec:
  assumes "q \<le> 2 ^ 53" and "i \<le> nat \<lceil>q\<rceil>"
  shows "\<exists>r w' n. preimage_loop nd t out len (Number q) (int i) w = Some (r, w') \<and>
     hashCalls w' + i = hashCalls w + n \<and> i \<le> n \<and> n \<le> nat \<lceil>q\<rceil> \<and>
     (found r \<longrightarrow>
        i < n \<and> tries r = Number (of_nat n) \<and>
        candidate r = Some (draws nd len (nat \<lceil>q\<rceil> - i) (rng w) ! (n - 1 - i)) \<and>
        hashFn t (draws nd len (nat \<lceil>q\<rceil> - i) (rng w) ! (n - 1 - i)) (testingKey t) = out \<and>
        (\<forall>m < n - 1 - i.
           hashFn t (draws nd len (nat \<lceil>q\<rceil> - i) (rng w) ! m) (testingKey t) \<noteq> out)) \<and>
     (\<not> found r \<longrightarrow>
        n = nat \<lceil>q\<rceil> \<and> tries r = Number q \<and> candidate r = None \<and>
        (\<forall>m < nat \<lceil>q\<rceil> - i.
           hashFn t (draws nd len (nat \<lceil>q\<rceil> - i) (rng w) ! m) (testingKey t) \<noteq> out))"
  using assms(2)
proof (induction "nat \<lceil>q\<rceil> - i" arbitrary: i w)
  case 0
  then have eq: "i = nat \<lceil>q\<rceil>" by simp
  then have "\<not> i < nat \<lceil>q\<rceil>" by simp
  then have "\<not> js_less (int i) (Number q)" by (simp add: js_less_Number)
  then have "preimage_loop nd t out len (Number q) (int i) w =
      Some (\<lparr>found = False, candidate = None, tries = Number q\<rparr>, w)"
    by (subst preimage_loop.simps) simp
  with eq show ?case by simp
next
  case (Suc d)
  let ?a = "nat \<lceil>q\<rceil>"
  from Suc.hyps(2) have lt: "i < ?a" by simp
  then have less: "js_less (int i) (Number q)" by (simp add: js_less_Number)
  from assms(1) have "q \<le> of_int (2 ^ 53)" by simp
  then have "\<lceil>q\<rceil> \<le> 2 ^ 53" by (simp only: ceiling_le_iff)
  moreover from lt have "int i < \<lceil>q\<rceil>" by linarith
  ultimately have "int i + 1 \<le> 2 ^ 53" by linarith
  then have fr: "fround (int i + 1) = int (Suc i)"
    by (simp add: fround_exact_le)
  obtain bytes g where rb: "randomBytes nd len (rng w) = (bytes, g)"
    by (cases "randomBytes nd len (rng w)")
  let ?c = "utf8String nd bytes"
  let ?w1 = "\<lparr>rng = g, hashCalls = Suc (hashCalls w)\<rparr>"
  from Suc.hyps(2) have d: "?a - i = Suc d" "?a - Suc i = d" by simp_all
  have dr: "draws nd len (?a - i) (rng w) = ?c # draws nd len (?a - Suc i) g"
    by (simp add: d rb)
  show ?case
  proof (cases "hashFn t ?c (testingKey t) = out")
    case hit: True
    have "preimage_loop nd t out len (Number q) (int i) w =
        Some (\<lparr>found = True, candidate = Some ?c, tries = Number (of_nat (Suc i))\<rparr>, ?w1)"
      by (subst preimage_loop.simps) (simp add: less rb hit fr del: of_nat_Suc)
    with lt hit dr show ?thesis
      by (intro exI [of _ "\<lparr>found = True, candidate = Some ?c, tries = Number (of_nat (Suc i))\<rparr>"]
          exI [of _ ?w1] exI [of _ "Suc i"]) simp
  next
    case miss: False
    have unf: "preimage_loop nd t out len (Number q) (int i) w =
        preimage_loop nd t out len (Number q) (int (Suc i)) ?w1"
      by (subst preimage_loop.simps) (simp add: less rb miss fr del: of_nat_Suc)
    from lt have le: "Suc i \<le> ?a" by simp
    from Suc.hyps(1) [OF d(2) [symmetric] le, of ?w1]
    obtain r w' n where res: "preimage_loop nd t out len (Number q) (int (Suc i)) ?w1 = Some (r, w')"
      and calls: "hashCalls w' + Suc i = hashCalls ?w1 + n" "Suc i \<le> n" "n \<le> ?a"
      and f: "found r \<longrightarrow>
        Suc i < n \<and> tries r = Number (of_nat n) \<and>
        candidate r = Some (draws nd len (?a - Suc i) (rng ?w1) ! (n - 1 - Suc i)) \<and>
        hashFn t (draws nd len (?a - Suc i) (rng ?w1) ! (n - 1 - Suc i)) (testingKey t) = out \<and>
        (\<forall>m < n - 1 - Suc i.
           hashFn t (draws nd len (?a - Suc i) (rng ?w1) ! m) (testingKey t) \<noteq> out)"
      and nf: "\<not> found r \<longrightarrow>
        n = ?a \<and> tries r = Number q \<and> candidate r = None \<and>
        (\<forall>m < ?a - Suc i.
           hashFn t (draws nd len (?a - Suc i) (rng ?w1) ! m) (testingKey t) \<noteq> out)"
      by blast
    have f': "i < n \<and> tries r = Number (of_nat n) \<and>
        candidate r = Some ((?c # draws nd len (?a - Suc i) g) ! (n - 1 - i)) \<and>
        hashFn t ((?c # draws nd len (?a - Suc i) g) ! (n - 1 - i)) (testingKey t) = out \<and>
        (\<forall>m < n - 1 - i.
           hashFn t ((?c # draws nd len (?a - Suc i) g) ! m) (testingKey t) \<noteq> out)"
      if "found r"
    proof -
      from f that have a: "Suc i < n" and tr: "tries r = Number (of_nat n)"
        and b: "candidate r = Some (draws nd len (?a - Suc i) g ! (n - Suc (Suc i)))"
        and c: "hashFn t (draws nd len (?a - Suc i) g ! (n - Suc (Suc i))) (testingKey t) = out"
        and e: "\<forall>m < n - Suc (Suc i).
            hashFn t (draws nd len (?a - Suc i) g ! m) (testingKey t) \<noteq> out"
        by simp_all
      from a have idx: "n - 1 - i = Suc (n - Suc (Suc i))" by simp
      have "hashFn t ((?c # draws nd len (?a - Suc i) g) ! m) (testingKey t) \<noteq> out"
        if "m < n - 1 - i" for m
        using that miss e idx by (cases m) simp_all
      with a tr b c idx show ?thesis by simp
    qed
    have nf': "n = ?a \<and> tries r = Number q \<and> candidate r = None \<and>
        (\<forall>m < ?a - i.
           hashFn t ((?c # draws nd len (?a - Suc i) g) ! m) (testingKey t) \<noteq> out)"
      if "\<not> found r"
    proof -
      from nf that have a: "n = ?a" "tries r = Number q" "candidate r = None"
        and e: "\<forall>m < ?a - Suc i.
            hashFn t (draws nd len (?a - Suc i) g ! m) (testingKey t) \<noteq> out"
        by simp_all
      have "hashFn t ((?c # draws nd len (?a - Suc i) g) ! m) (testingKey t) \<noteq> out"
        if "m < ?a - i" for m
        using that miss e d by (cases m) simp_all
      with a show ?thesis by simp
    qed
    from calls have c1: "hashCalls w' + i = hashCalls w + n" "i \<le> n" by simp_all
    from res unf have res': "preimage_loop nd t out len (Number q) (int i) w = Some (r, w')"
      by simp
    from res' c1 calls(3) f' nf' show ?thesis
      unfolding dr by blast
  qed
qed

text \<open>
  Beyond \<open>2^53\<close> the counter stops growing, so a search in which no candidate matches
  never returns.
\<close>

lemma preimage_loop_never_returns:
  assumes never: "\<And>c. hashFn t c (testingKey t) \<noteq> out"
    and big: "\<And>i. i \<le> 2 ^ 53 \<Longrightarrow> js_less i a"
    and i: "0 \<le> i" "i \<le> 2 ^ 53"
  shows "preimage_loop nd t out len a i w = None"
proof (rule ccontr)
  assume "preimage_loop nd t out len a i w \<noteq> None"
  then obtain y where y: "preimage_loop nd t out len a i w = Some y" by auto
  have "t = t \<longrightarrow> out = out \<longrightarrow> a = a \<longrightarrow> 0 \<le> i \<longrightarrow> i \<le> 2 ^ 53 \<longrightarrow> False"
  proof (rule preimage_loop.raw_induct [where P = "\<lambda>nd' t' out' len' a' i' w' y'.
        t' = t \<longrightarrow> out' = out \<longrightarrow> a' = a \<longrightarrow> 0 \<le> i' \<longrightarrow> i' \<le> 2 ^ 53 \<longrightarrow> False", OF _ y])
    fix loop :: "'a node \<Rightarrow> hashTester \<Rightarrow> jsstring \<Rightarrow> nat \<Rightarrow> jsnumber \<Rightarrow> int \<Rightarrow> 'a world
        \<Rightarrow> (preimageResult \<times> 'a world) option"
    fix nd' t' out' len' a' i' w' y'
    assume IH: "\<And>nd'' t'' out'' len'' a'' i'' w'' y''.
        loop nd'' t'' out'' len'' a'' i'' w'' = Some y'' \<Longrightarrow>
        t'' = t \<longrightarrow> out'' = out \<longrightarrow> a'' = a \<longrightarrow> 0 \<le> i'' \<longrightarrow> i'' \<le> 2 ^ 53 \<longrightarrow> False"
    assume body: "(if js_less i' a'
      then case randomBytes nd' len' (rng w') of
           (bytes, g) \<Rightarrow>
             if hashFn t' (utf8String nd' bytes) (testingKey t') = out'
             then Some
                   (\<lparr>found = True, candidate = Some (utf8String nd' bytes),
                       tries = Number (of_int (fround (i' + 1)))\<rparr>,
                    \<lparr>rng = g, hashCalls = Suc (hashCalls w')\<rparr>)
             else loop nd' t' out' len' a'
                   (fround (i' + 1)) \<lparr>rng = g, hashCalls = Suc (hashCalls w')\<rparr>
      else Some (\<lparr>found = False, candidate = None, tries = a'\<rparr>, w')) =
     Some y'"
    show "t' = t \<longrightarrow> out' = out \<longrightarrow> a' = a \<longrightarrow> 0 \<le> i' \<longrightarrow> i' \<le> 2 ^ 53 \<longrightarrow> False"
    proof (intro impI)
      assume eqs: "t' = t" "out' = out" "a' = a" and i': "0 \<le> i'" "i' \<le> 2 ^ 53"
      obtain bytes g where rb: "randomBytes nd' len' (rng w') = (bytes, g)"
        by (cases "randomBytes nd' len' (rng w')")
      from eqs i' have less: "js_less i' a'" by (simp add: big)
      from eqs have miss: "hashFn t' (utf8String nd' bytes) (testingKey t') \<noteq> out'"
        by (simp add: never)
      from body less rb miss
      have rec: "loop nd' t' out' len' a' (fround (i' + 1))
          \<lparr>rng = g, hashCalls = Suc (hashCalls w')\<rparr> = Some y'"
        by simp
      from i' have "0 \<le> fround (i' + 1) \<and> fround (i' + 1) \<le> 2 ^ 53"
        by (intro fround_stuck)
      with IH [OF rec] eqs show False by blast
    qed
  qed
  with i show False by simp
qed

lemma preimage_never_returns:
  assumes "\<And>c. hashFn t c (testingKey t) \<noteq> out"
    and "a = PosInfinity \<or> (\<exists>q. a = Number q \<and> 2 ^ 53 < q)"
  shows "preimage nd t out len a w = None"
  unfolding preimage_def
proof (rule preimage_loop_never_returns)
  fix c show "hashFn t c (testingKey t) \<noteq> out" by (rule assms(1))
next
  fix i :: int
  assume i: "i \<le> 2 ^ 53"
  then have "(of_int i :: rat) \<le> of_int (2 ^ 53)"
    by (simp only: of_int_le_iff)
  then have "(of_int i :: rat) \<le> 2 ^ 53" by simp
  with assms(2) show "js_less i a"
    by (auto simp: js_less_def)
qed simp_all

text \<open>
  When \<open>0 < attempts\<close> is false (\<open>attempts\<close> is zero, negative or \<open>NaN\<close>) nothing is
  drawn and \<open>attempts\<close> itself comes back as \<open>tries\<close>.
\<close>

lemma preimage_no_iterations:
  "\<not> js_less 0 a \<Longrightarrow>
   preimage nd t out len a w = Some (\<lparr>found = False, candidate = None, tries = a\<rparr>, w)"
  unfolding preimage_def by (subst preimage_loop.simps) simp

text \<open>
  C9, as the claim states it, fails: \<open>attempts\<close> is not checked to be an integer. With
  \<open>attempts = 2.5\<close>, candidates \<open>[0]\<close>, \<open>[1]\<close>, \<open>[2]\<close>, \<dots> under a hash function
  that returns its input, and the target \<open>[9]\<close>, the loop test holds at 0, 1 and 2: the
  hash function is called three times, which is more than \<open>attempts\<close>, and the
  \<open>tries\<close> returned is 2.5, which is not the number of calls.
\<close>

theorem preimage_bounded_counterexample:
  "preimage
     \<lparr>utf8Bytes = map ucast, utf8String = map ucast, hexBytes = map ucast,
      randomBytes = (\<lambda>n g. (replicate n g, g + 1 :: byte))\<rparr>
     \<lparr>hashFn = (\<lambda>input key. input), testingKey = []\<rparr>
     [9] 1 (Number (5 / 2)) \<lparr>rng = 0, hashCalls = 0\<rparr> =
   Some (\<lparr>found = False, candidate = None, tries = Number (5 / 2)\<rparr>,
         \<lparr>rng = 3, hashCalls = 3\<rparr>) \<and>
   \<not> (of_nat 3 \<le> (5 / 2 :: rat))"
proof -
  have "preimage
     \<lparr>utf8Bytes = map ucast, utf8String = map ucast, hexBytes = map ucast,
      randomBytes = (\<lambda>n g. (replicate n g, g + 1 :: byte))\<rparr>
     \<lparr>hashFn = (\<lambda>input key. input), testingKey = []\<rparr>
     [9] 1 (Number (5 / 2)) \<lparr>rng = 0, hashCalls = 0\<rparr> =
   Some (\<lparr>found = False, candidate = None, tries = Number (5 / 2)\<rparr>,
         \<lparr>rng = 3, hashCalls = 3\<rparr>)"
    by code_simp
  moreover have "\<not> (of_nat 3 \<le> (5 / 2 :: rat))"
    by simp
  ultimately show ?thesis by (rule conjI)
qed

text \<open>
  C9, for an \<open>attempts\<close> that is a non-negative integer of at most \<open>2^53\<close>.
  \<open>preimage\<close> returns, and what it returns is a value, never an exception. It calls
  the hash function once per try, \<open>tries\<close> times in all and at most \<open>attempts\<close> times.
  When it reports a find, the candidate is the first of the drawn candidates whose digest
  equals the target, \<open>tries\<close> is its position counted from 1, and no candidate drawn
  before it matched. Otherwise none of the \<open>attempts\<close> candidates matched and it reports
  \<open>tries = attempts\<close> with no candidate.
\<close>

theorem preimage_bounded:
  "a \<le> 2 ^ 53 \<Longrightarrow>
   \<exists>r w' n. preimage nd t out len (Number (of_nat a)) w = Some (r, w') \<and>
     tries r = Number (of_nat n) \<and> hashCalls w' = hashCalls w + n \<and> n \<le> a \<and>
     (found r \<longrightarrow>
        0 < n \<and>
        candidate r = Some (draws nd len a (rng w) ! (n - 1)) \<and>
        hashFn t (draws nd len a (rng w) ! (n - 1)) (testingKey t) = out \<and>
        (\<forall>m < n - 1. hashFn t (draws nd len a (rng w) ! m) (testingKey t) \<noteq> out)) \<and>
     (\<not> found r \<longrightarrow>
        n = a \<and> candidate r = None \<and>
        (\<forall>m < a. hashFn t (draws nd len a (rng w) ! m) (testingKey t) \<noteq> out))"
proof -
  assume "a \<le> 2 ^ 53"
  then have "(of_nat a :: rat) \<le> of_nat (2 ^ 53)"
    by (simp only: of_nat_le_iff)
  then have q: "(of_nat a :: rat) \<le> 2 ^ 53" by simp
  have c: "nat \<lceil>of_nat a :: rat\<rceil> = a" by simp
  from preimage_loop_spec [OF q, of 0 nd t out len w]
  obtain r w' n where res: "preimage_loop nd t out len (Number (of_nat a)) 0 w = Some (r, w')"
    and calls: "hashCalls w' = hashCalls w + n" "n \<le> a"
    and f: "found r \<longrightarrow>
        0 < n \<and> tries r = Number (of_nat n) \<and>
        candidate r = Some (draws nd len a (rng w) ! (n - 1)) \<and>
        hashFn t (draws nd len a (rng w) ! (n - 1)) (testingKey t) = out \<and>
        (\<forall>m < n - 1. hashFn t (draws nd len a (rng w) ! m) (testingKey t) \<noteq> out)"
    and nf: "\<not> found r \<longrightarrow>
        n = a \<and> tries r = Number (of_nat a) \<and> candidate r = None \<and>
        (\<forall>m < a. hashFn t (draws nd len a (rng w) ! m) (testingKey t) \<noteq> out)"
    unfolding c by auto
  from f nf have tr: "tries r = Number (of_nat n)"
    by (cases "found r") simp_all
  from res have "preimage nd t out len (Number (of_nat a)) w = Some (r, w')"
    by (simp add: preimage_def)
  with tr calls f nf show ?thesis
    by blast
qed

text \<open>
  The witness of C9: candidates \<open>[0]\<close>, \<open>[1]\<close>, \<open>[2]\<close>, \<dots> under a hash function that
  returns its input, and the target \<open>[2]\<close>: found at the third try with a budget of five.
\<close>

theorem preimage_bounded_witness:
  "(5 :: nat) \<le> 2 ^ 53 \<and>
   (\<exists>r w'. preimage
       \<lparr>utf8Bytes = map ucast, utf8String = map ucast, hexBytes = map ucast,
        randomBytes = (\<lambda>n g. (replicate n g, g + 1))\<rparr>
       \<lparr>hashFn = (\<lambda>input key. input), testingKey = []\<rparr>
       [2] 1 (Number (of_nat 5)) \<lparr>rng = 0 :: byte, hashCalls = 0\<rparr> = Some (r, w') \<and>
      found r \<and> tries r = Number 3 \<and> hashCalls w' = 3 \<and>
      candidate r = Some (draws
       \<lparr>utf8Bytes = map ucast, utf8String = map ucast, hexBytes = map ucast,
        randomBytes = (\<lambda>n g. (replicate n g, g + 1))\<rparr> 1 5 (0 :: byte) ! 2))"
proof -
  let ?nd = "\<lparr>utf8Bytes = map ucast, utf8String = map ucast, hexBytes = map ucast,
        randomBytes = (\<lambda>n g. (replicate n g, g + 1))\<rparr> :: byte node"
  let ?t = "\<lparr>hashFn = (\<lambda>input key. input), testingKey = []\<rparr>"
  let ?w = "\<lparr>rng = 0 :: byte, hashCalls = 0\<rparr>"
  let ?r = "\<lparr>found = True, candidate = Some [2 :: 16 word], tries = Number 3\<rparr>"
  let ?w' = "\<lparr>rng = 3 :: byte, hashCalls = 3\<rparr>"
  have le: "(5 :: nat) \<le> 2 ^ 53" by simp
  have hit: "preimage ?nd ?t [2] 1 (Number (of_nat 5)) ?w = Some (?r, ?w')"
    by code_simp
  from preimage_bounded [OF le, where nd = ?nd and t = ?t and out = "[2]" and len = 1 and w = ?w]
  obtain r w' n where res: "preimage ?nd ?t [2] 1 (Number (of_nat 5)) ?w = Some (r, w')"
    and calls: "hashCalls w' = hashCalls ?w + n"
    and f: "found r \<longrightarrow> candidate r = Some (draws ?nd 1 5 (rng ?w) ! (n - 1))"
    by blast
  from res hit have r: "r = ?r" and w': "w' = ?w'" by simp_all
  from calls w' have n: "n = 3" by simp
  from r have fr: "found r" by simp
  with f n have "candidate r = Some (draws ?nd 1 5 0 ! 2)" by simp
  with res r w' fr le show ?thesis by simp
qed

end
